theory Spec2Isabelle
  imports Main
begin

section \<open>Python values, exceptions and strings\<close>

text \<open>
  The search-provider response is an arbitrary Python value (\<open>search_response: Any\<close>).
  Only the shapes the pipeline inspects are distinguished; a dictionary is an association
  list with string keys, in insertion order. Strings are lists of code points below 256,
  one \<open>char\<close> per code point, so \<open>length\<close> is Python's \<open>len\<close> on such text.
\<close>

datatype pyval =
    PNone
  | PBool bool
  | PInt int
  | PStr string
  | PList "pyval list"
  | PDict "(string \<times> pyval) list"

datatype error = AttributeError | TypeError | KeyError

text \<open>\<open>d.get(key, default)\<close>.\<close>

definition dict_get :: "(string \<times> 'v) list \<Rightarrow> string \<Rightarrow> 'v \<Rightarrow> 'v" where
  "dict_get d k dflt = (case map_of d k of Some v \<Rightarrow> v | None \<Rightarrow> dflt)"

text \<open>\<open>str.isspace\<close>, which is also the class \<open>\s\<close> of \<open>re\<close>, on code points below 256.\<close>

definition is_space :: "char \<Rightarrow> bool" where
  "is_space c = (let n = (of_char c :: nat) in
     (9 \<le> n \<and> n \<le> 13) \<or> (28 \<le> n \<and> n \<le> 32) \<or> n = 133 \<or> n = 160)"

text \<open>The class \<open>\w\<close> of \<open>re\<close> (alphanumeric or underscore) on code points below 256.\<close>

definition is_word :: "char \<Rightarrow> bool" where
  "is_word c = (let n = (of_char c :: nat) in
     (48 \<le> n \<and> n \<le> 57) \<or> (65 \<le> n \<and> n \<le> 90) \<or> n = 95 \<or> (97 \<le> n \<and> n \<le> 122)
     \<or> n = 170 \<or> n = 178 \<or> n = 179 \<or> n = 181 \<or> n = 185 \<or> n = 186
     \<or> (188 \<le> n \<and> n \<le> 190) \<or> (192 \<le> n \<and> n \<le> 214) \<or> (216 \<le> n \<and> n \<le> 246)
     \<or> 248 \<le> n)"

text \<open>\<open>str.lower\<close> on one code point below 256.\<close>

definition py_lower_char :: "char \<Rightarrow> char" where
  "py_lower_char c = (let n = (of_char c :: nat) in
     if (65 \<le> n \<and> n \<le> 90) \<or> (192 \<le> n \<and> n \<le> 222 \<and> n \<noteq> 215) then char_of (n + 32) else c)"

definition py_lower :: "string \<Rightarrow> string" where
  "py_lower s = map py_lower_char s"

text \<open>\<open>str.strip()\<close>.\<close>

definition py_strip :: "string \<Rightarrow> string" where
  "py_strip s = rev (dropWhile is_space (rev (dropWhile is_space s)))"

text \<open>The slice \<open>s[:n]\<close>; a negative \<open>n\<close> counts from the end.\<close>

definition py_slice_to :: "string \<Rightarrow> int \<Rightarrow> string" where
  "py_slice_to s n = (if n < 0 then take (nat (int (length s) + n)) s else take (nat n) s)"

text \<open>\<open>str(n)\<close> for an integer.\<close>

definition digit_char :: "nat \<Rightarrow> char" where
  "digit_char d = ''0123456789'' ! d"

fun str_nat :: "nat \<Rightarrow> string" where
  "str_nat n = (if n < 10 then [digit_char n] else str_nat (n div 10) @ [digit_char (n mod 10)])"

declare str_nat.simps [simp del]

definition str_int :: "int \<Rightarrow> string" where
  "str_int i = (if i < 0 then CHR ''-'' # str_nat (nat (- i)) else str_nat (nat i))"

text \<open>\<open>sub in s\<close> on strings.\<close>

fun is_substr :: "string \<Rightarrow> string \<Rightarrow> bool" where
  "is_substr sub [] = (sub = [])"
| "is_substr sub (c # cs) = (take (length sub) (c # cs) = sub \<or> is_substr sub cs)"

text \<open>
  \<open>s.replace(old, new)\<close>: every non-overlapping occurrence, left to right; an empty
  \<open>old\<close> puts \<open>new\<close> before every character and at the end.
\<close>

fun replace_scan :: "string \<Rightarrow> string \<Rightarrow> string \<Rightarrow> string" where
  "replace_scan old new [] = []"
| "replace_scan old new (c # cs) =
     (if take (length old) (c # cs) = old
      then new @ replace_scan old new (drop (length old - 1) cs)
      else c # replace_scan old new cs)"

definition py_replace :: "string \<Rightarrow> string \<Rightarrow> string \<Rightarrow> string" where
  "py_replace old new s =
     (if old = [] then new @ concat (map (\<lambda>c. c # new) s) else replace_scan old new s)"

text \<open>\<open>s.find(sub)\<close>, with \<open>None\<close> for Python's \<open>-1\<close>.\<close>

fun py_find :: "string \<Rightarrow> string \<Rightarrow> nat option" where
  "py_find sub [] = (if sub = [] then Some 0 else None)"
| "py_find sub (c # cs) =
     (if take (length sub) (c # cs) = sub then Some 0 else map_option Suc (py_find sub cs))"

text \<open>\<open>s.split(sep)\<close> for a separator of one character.\<close>

fun py_split :: "char \<Rightarrow> string \<Rightarrow> string list" where
  "py_split sep [] = [[]]"
| "py_split sep (c # cs) =
     (if c = sep then [] # py_split sep cs
      else (case py_split sep cs of [] \<Rightarrow> [[c]] | w # ws \<Rightarrow> (c # w) # ws))"

section \<open>The content sanitizer\<close>

text \<open>\<open>re.sub(r'\s+', ' ', s)\<close>: every maximal run of whitespace becomes one space.\<close>

function collapse_ws :: "string \<Rightarrow> string" where
  "collapse_ws [] = []"
| "collapse_ws (c # cs) =
     (if is_space c then CHR '' '' # collapse_ws (dropWhile is_space cs)
      else c # collapse_ws cs)"
  by pat_completeness auto
termination
  by (relation "measure length") (auto simp: le_imp_less_Suc length_dropWhile_le)

text \<open>
  Each noise pattern has the shape \<open>[\b](K1|K2|...)[\b].*?(?=\.|$)\<close>, matched with
  \<open>re.IGNORECASE\<close>: an alternation of literal keywords, either enclosed in two word
  boundaries or in none, then the shortest run of characters up to a full stop or the end.
\<close>

record noise_pattern =
  word_bounded :: bool
  alternatives :: "string list"

definition noise_patterns :: "noise_pattern list" where
  "noise_patterns =
     [\<lparr>word_bounded = True, alternatives = [''Cookie'', ''Privacy Policy'', ''Terms of Service'']\<rparr>,
      \<lparr>word_bounded = True, alternatives = [''Advertisement'', ''Ad'']\<rparr>,
      \<lparr>word_bounded = False, alternatives = [''JavaScript'']\<rparr>,
      \<lparr>word_bounded = False, alternatives = [''Enable JavaScript'']\<rparr>,
      \<lparr>word_bounded = False, alternatives = [''This website uses cookies'']\<rparr>]"

text \<open>A literal keyword matches at the head of the text, ignoring case.\<close>

fun ci_prefix :: "string \<Rightarrow> string \<Rightarrow> bool" where
  "ci_prefix [] s = True"
| "ci_prefix (k # ks) [] = False"
| "ci_prefix (k # ks) (c # cs) = (py_lower_char k = py_lower_char c \<and> ci_prefix ks cs)"

text \<open>\<open>\b\<close> between two neighbouring positions; \<open>None\<close> is the edge of the string.\<close>

definition opt_word :: "char option \<Rightarrow> bool" where
  "opt_word x = (case x of None \<Rightarrow> False | Some c \<Rightarrow> is_word c)"

definition word_boundary :: "char option \<Rightarrow> char option \<Rightarrow> bool" where
  "word_boundary a b = (opt_word a \<noteq> opt_word b)"

definition opt_hd :: "'a list \<Rightarrow> 'a option" where
  "opt_hd xs = (case xs of [] \<Rightarrow> None | x # _ \<Rightarrow> Some x)"

definition opt_last :: "'a list \<Rightarrow> 'a option" where
  "opt_last xs = (if xs = [] then None else Some (last xs))"

text \<open>
  \<open>.*?(?=\.|$)\<close>: the number of characters the lazy run consumes. The dot does not
  match a newline, and \<open>$\<close> holds at the end and before a final newline.
\<close>

fun lazy_to_dot :: "string \<Rightarrow> nat option" where
  "lazy_to_dot [] = Some 0"
| "lazy_to_dot (c # cs) =
     (if c = CHR ''.'' then Some 0
      else if c = CHR 0x0A then (if cs = [] then Some 0 else None)
      else map_option Suc (lazy_to_dot cs))"

text \<open>One alternative of the pattern at the head of the text: the length of the match.\<close>

definition match_keyword :: "bool \<Rightarrow> string \<Rightarrow> string \<Rightarrow> nat option" where
  "match_keyword wb k s =
     (if ci_prefix k s \<and>
         (if wb then word_boundary (opt_last (take (length k) s)) (opt_hd (drop (length k) s))
          else True)
      then map_option (\<lambda>n. length k + n) (lazy_to_dot (drop (length k) s))
      else None)"

text \<open>The alternatives are tried in order; the first that lets the rest match wins.\<close>

fun match_alts :: "bool \<Rightarrow> string list \<Rightarrow> string \<Rightarrow> nat option" where
  "match_alts wb [] s = None"
| "match_alts wb (k # ks) s =
     (case match_keyword wb k s of Some n \<Rightarrow> Some n | None \<Rightarrow> match_alts wb ks s)"

text \<open>A match of the pattern starting here; \<open>prev\<close> is the character before.\<close>

definition match_at :: "noise_pattern \<Rightarrow> char option \<Rightarrow> string \<Rightarrow> nat option" where
  "match_at p prev s =
     (if word_bounded p \<and> \<not> word_boundary prev (opt_hd s) then None
      else match_alts (word_bounded p) (alternatives p) s)"

text \<open>
  \<open>re.sub(pattern, '', s, flags=re.IGNORECASE)\<close>: scan from the left, delete each match
  and go on behind it; an empty match deletes nothing.
\<close>

fun re_sub_noise :: "noise_pattern \<Rightarrow> char option \<Rightarrow> string \<Rightarrow> string" where
  "re_sub_noise p prev [] = []"
| "re_sub_noise p prev (c # cs) =
     (case match_at p prev (c # cs) of
        None \<Rightarrow> c # re_sub_noise p (Some c) cs
      | Some 0 \<Rightarrow> c # re_sub_noise p (Some c) cs
      | Some (Suc k) \<Rightarrow> re_sub_noise p (opt_last (take (Suc k) (c # cs))) (drop k cs))"


text \<open>
  Two notions for stating what the sanitizer achieves: a keyword occurs somewhere in the
  text, ignoring case; and the text is whitespace-normal, that is every whitespace character
  is a blank followed by a character that is not whitespace, or by the end.
\<close>

fun ci_substr :: "string \<Rightarrow> string \<Rightarrow> bool" where
  "ci_substr k [] = ci_prefix k []"
| "ci_substr k (c # cs) = (ci_prefix k (c # cs) \<or> ci_substr k cs)"


fun validate_and_clean_content :: "pyval \<Rightarrow> string" where
  "validate_and_clean_content (PStr content) =
     (if content = [] then []
      else py_strip (fold (\<lambda>pattern c. re_sub_noise pattern None c) noise_patterns
                       (collapse_ws (py_strip content))))"
| "validate_and_clean_content _ = []"

section \<open>The result extractor\<close>

text \<open>
  \<open>json.loads\<close> is a parameter: it gives \<open>None\<close> where Python raises
  \<open>JSONDecodeError\<close>.
\<close>

definition wrap_text :: "string \<Rightarrow> pyval" where
  "wrap_text s =
     PList [PDict [(''title'', PStr ''Search Result''), (''url'', PStr ''''), (''content'', PStr s)]]"

fun extract_tavily_results :: "(string \<Rightarrow> pyval option) \<Rightarrow> pyval \<Rightarrow> pyval" where
  "extract_tavily_results loads (PDict d) =
     (case map_of d ''results'' of
        Some r \<Rightarrow> r
      | None \<Rightarrow>
         (case map_of d ''answer'' of
            Some a \<Rightarrow>
              PList [PDict [(''title'', PStr ''Direct Answer''), (''url'', PStr ''''), (''content'', a)]]
          | None \<Rightarrow> PList []))"
| "extract_tavily_results loads (PList xs) = PList xs"
| "extract_tavily_results loads (PStr s) =
     (case loads s of
        Some (PDict d) \<Rightarrow> (case map_of d ''results'' of Some r \<Rightarrow> r | None \<Rightarrow> wrap_text s)
      | _ \<Rightarrow> wrap_text s)"
| "extract_tavily_results loads _ = PList []"

text \<open>
  A \<open>json.loads\<close> that rejects every text, for responses that are not text (the
  extractor then never calls it).
\<close>

definition reject_json :: "string \<Rightarrow> pyval option" where
  "reject_json s = None"

section \<open>The source processor\<close>

text \<open>What a \<open>for\<close> loop iterates over: a dictionary yields its keys, a string its characters.\<close>

fun py_iter :: "pyval \<Rightarrow> error + pyval list" where
  "py_iter (PList xs) = Inr xs"
| "py_iter (PDict d) = Inr (map (\<lambda>kv. PStr (fst kv)) d)"
| "py_iter (PStr s) = Inr (map (\<lambda>c. PStr [c]) s)"
| "py_iter _ = Inl TypeError"

text \<open>\<open>v.strip()\<close> on a value that need not be a string.\<close>

fun strip_value :: "pyval \<Rightarrow> error + string" where
  "strip_value (PStr s) = Inr (py_strip s)"
| "strip_value _ = Inl AttributeError"

text \<open>One metadata dictionary, as the loop builds it.\<close>

type_synonym source = "(string \<times> string) list"

definition source_id :: "int \<Rightarrow> string" where
  "source_id n = ''['' @ str_int n @ '']''"

definition formatted_source :: "int \<Rightarrow> string \<Rightarrow> string \<Rightarrow> string \<Rightarrow> string" where
  "formatted_source n title url clean_content =
     ''=== Source '' @ str_int n @ '' ===\<newline>Title: '' @ title @ ''\<newline>URL: '' @ url
       @ ''\<newline>Content: '' @ clean_content @ ''\<newline>==================''"

definition source_metadata :: "int \<Rightarrow> string \<Rightarrow> string \<Rightarrow> string \<Rightarrow> source" where
  "source_metadata n title url clean_content =
     [(''title'', title), (''url'', url), (''content'', clean_content),
      (''short_url'', source_id n), (''value'', url), (''label'', title)]"

definition truncate_content :: "int \<Rightarrow> string \<Rightarrow> string" where
  "truncate_content max_content_length clean_content =
     (if int (length clean_content) > max_content_length
      then py_slice_to clean_content max_content_length @ ''...''
      else clean_content)"

text \<open>
  The body of the loop for one raw result, at accepted count \<open>valid_result_count\<close>:
  an exception, \<open>None\<close> for \<open>continue\<close>, or the formatted block and the metadata.
\<close>

definition process_result ::
  "int \<Rightarrow> int \<Rightarrow> int \<Rightarrow> pyval \<Rightarrow> error + (string \<times> source) option" where
  "process_result valid_result_count max_content_length min_content_length result =
     (case result of
        PDict d \<Rightarrow>
          (case strip_value
                  (dict_get d ''title'' (PStr (''Search Result '' @ str_int (valid_result_count + 1)))) of
             Inl e \<Rightarrow> Inl e
           | Inr title \<Rightarrow>
              (case strip_value (dict_get d ''url'' (PStr '''')) of
                 Inl e \<Rightarrow> Inl e
               | Inr url \<Rightarrow>
                  (case strip_value (dict_get d ''content'' (PStr '''')) of
                     Inl e \<Rightarrow> Inl e
                   | Inr raw_content \<Rightarrow>
                      (let clean_content = validate_and_clean_content (PStr raw_content) in
                       if int (length clean_content) < min_content_length then Inr None
                       else
                         (let clean_content = truncate_content max_content_length clean_content;
                              n = valid_result_count + 1
                          in Inr (Some (formatted_source n title url clean_content,
                                        source_metadata n title url clean_content)))))))
      | _ \<Rightarrow> Inr None)"

fun process_loop ::
  "int \<Rightarrow> int \<Rightarrow> int \<Rightarrow> pyval list \<Rightarrow> int \<Rightarrow> string list \<Rightarrow> source list
     \<Rightarrow> error + (string list \<times> source list)" where
  "process_loop max_results max_content_length min_content_length [] valid_result_count
     formatted_sources sources_gathered = Inr (formatted_sources, sources_gathered)"
| "process_loop max_results max_content_length min_content_length (result # rest) valid_result_count
     formatted_sources sources_gathered =
     (if valid_result_count \<ge> max_results then Inr (formatted_sources, sources_gathered)
      else
        (case process_result valid_result_count max_content_length min_content_length result of
           Inl e \<Rightarrow> Inl e
         | Inr None \<Rightarrow>
             process_loop max_results max_content_length min_content_length rest valid_result_count
               formatted_sources sources_gathered
         | Inr (Some (f, g)) \<Rightarrow>
             process_loop max_results max_content_length min_content_length rest
               (valid_result_count + 1) (formatted_sources @ [f]) (sources_gathered @ [g])))"

definition process_search_results_for_ai ::
  "(string \<Rightarrow> pyval option) \<Rightarrow> pyval \<Rightarrow> int \<Rightarrow> int \<Rightarrow> int
     \<Rightarrow> error + (string list \<times> source list)" where
  "process_search_results_for_ai loads search_response max_results max_content_length
     min_content_length =
     (case py_iter (extract_tavily_results loads search_response) of
        Inl e \<Rightarrow> Inl e
      | Inr raw_results \<Rightarrow>
          process_loop max_results max_content_length min_content_length raw_results 0 [] [])"

section \<open>The citation rewriter\<close>

subsection \<open>In-flight citation normalization\<close>

text \<open>\<open>url.split('/')[2]\<close>; \<open>None\<close> is the \<open>IndexError\<close> the code catches.\<close>

definition url_domain :: "string \<Rightarrow> string option" where
  "url_domain url = (case py_split (CHR ''/'') url of a # b # d # _ \<Rightarrow> Some d | _ \<Rightarrow> None)"

definition replace_if_present :: "string \<Rightarrow> string \<Rightarrow> string \<Rightarrow> string" where
  "replace_if_present short_url pattern processed_content =
     (if is_substr pattern processed_content
      then py_replace pattern short_url processed_content
      else processed_content)"

text \<open>The url part of the loop body, for one source.\<close>

definition replace_url_references :: "string \<Rightarrow> string \<Rightarrow> string \<Rightarrow> string" where
  "replace_url_references url short_url processed_content =
     (if url \<noteq> [] \<and> short_url \<noteq> [] then
        (let processed_content = py_replace url short_url processed_content in
         case url_domain url of
           None \<Rightarrow> processed_content
         | Some domain \<Rightarrow>
             (let processed_content =
                    (if is_substr domain processed_content \<and> length domain > 10
                     then py_replace domain short_url processed_content
                     else processed_content)
              in fold (replace_if_present short_url)
                   [''https://'' @ domain, ''http://'' @ domain, domain] processed_content))
      else processed_content)"

text \<open>The title part of the loop body, for one source.\<close>

definition cite_title :: "string \<Rightarrow> string \<Rightarrow> string \<Rightarrow> string" where
  "cite_title title short_url processed_content =
     (if title \<noteq> [] \<and> length title > 20 then
        (let title_lower = py_lower title; content_lower = py_lower processed_content in
         if is_substr title_lower content_lower then
           (case py_find title_lower content_lower of
              None \<Rightarrow> processed_content
            | Some title_pos \<Rightarrow>
                (let nearby_text =
                       take (title_pos + length title + 25 - (title_pos - 25))
                         (drop (title_pos - 25) processed_content)
                 in if \<not> is_substr short_url nearby_text
                    then (let title_end = title_pos + length title
                          in take title_end processed_content @ short_url
                               @ drop title_end processed_content)
                    else processed_content))
         else processed_content)
      else processed_content)"

text \<open>The loop body for the source at index \<open>i\<close>.\<close>

definition cite_source :: "nat \<Rightarrow> source \<Rightarrow> string \<Rightarrow> string" where
  "cite_source i source processed_content =
     (let url = dict_get source ''url'' [];
          short_url = dict_get source ''short_url'' (''['' @ str_nat (i + 1) @ '']'');
          processed_content = replace_url_references url short_url processed_content;
          title = dict_get source ''title'' []
      in cite_title title short_url processed_content)"

fun citations_loop :: "nat \<Rightarrow> source list \<Rightarrow> string \<Rightarrow> string" where
  "citations_loop i [] processed_content = processed_content"
| "citations_loop i (source # rest) processed_content =
     citations_loop (i + 1) rest (cite_source i source processed_content)"

definition process_citations_in_response :: "string \<Rightarrow> source list \<Rightarrow> string" where
  "process_citations_in_response response_content sources_metadata =
     citations_loop 0 sources_metadata response_content"

subsection \<open>Finalization\<close>

text \<open>
  The part of \<open>finalize_answer\<close> after the model has answered: \<open>content\<close> is
  \<open>result.content\<close>, reassigned by the loop. \<open>citation_map\<close> is a dictionary, which
  keeps insertion order: assigning to a key it has keeps the key's place.
\<close>

fun dict_set :: "('k \<times> 'v) list \<Rightarrow> 'k \<Rightarrow> 'v \<Rightarrow> ('k \<times> 'v) list" where
  "dict_set [] k v = [(k, v)]"
| "dict_set ((k', v') # d) k v = (if k' = k then (k, v) # d else (k', v') # dict_set d k v)"

text \<open>
  The loop body for one source: \<open>KeyError\<close> where it has no \<open>short_url\<close>, otherwise
  the three variables after the iteration.
\<close>

definition finalize_source ::
  "source \<Rightarrow> string \<Rightarrow> source list \<Rightarrow> (nat \<times> source) list
     \<Rightarrow> error + (string \<times> source list \<times> (nat \<times> source) list)" where
  "finalize_source source content unique_sources citation_map =
     (case map_of source ''short_url'' of
        None \<Rightarrow> Inl KeyError
      | Some short_url \<Rightarrow>
          if is_substr short_url content then
            (let citation_num = length unique_sources + 1;
                 citation_ref = ''['' @ str_nat citation_num @ '']''
             in Inr (py_replace short_url citation_ref content,
                     unique_sources @ [source], dict_set citation_map citation_num source))
          else Inr (content, unique_sources, citation_map))"

fun finalize_loop ::
  "source list \<Rightarrow> string \<Rightarrow> source list \<Rightarrow> (nat \<times> source) list
     \<Rightarrow> error + (string \<times> source list \<times> (nat \<times> source) list)" where
  "finalize_loop [] content unique_sources citation_map =
     Inr (content, unique_sources, citation_map)"
| "finalize_loop (source # rest) content unique_sources citation_map =
     (case finalize_source source content unique_sources citation_map of
        Inl e \<Rightarrow> Inl e
      | Inr (content', unique_sources', citation_map') \<Rightarrow>
          finalize_loop rest content' unique_sources' citation_map')"

definition reference_url :: "source \<Rightarrow> string" where
  "reference_url source = dict_get source ''url'' (dict_get source ''value'' [])"

definition reference_line :: "nat \<Rightarrow> source \<Rightarrow> string" where
  "reference_line citation_num source =
     str_nat citation_num @ ''. ['' @ dict_get source ''title'' ''Untitled'' @ '']('' @
       reference_url source @ '')\<newline>''"

definition references_section :: "(nat \<times> source) list \<Rightarrow> string" where
  "references_section citation_map =
     fold (\<lambda>item section. section @ reference_line (fst item) (snd item)) citation_map
       ''\<newline>\<newline>## References\<newline>\<newline>''"

definition finalize_answer :: "string \<Rightarrow> source list \<Rightarrow> error + (string \<times> source list)" where
  "finalize_answer content sources_gathered =
     (case finalize_loop sources_gathered content [] [] of
        Inl e \<Rightarrow> Inl e
      | Inr (content, unique_sources, citation_map) \<Rightarrow>
          Inr (if unique_sources \<noteq> [] then content @ references_section citation_map else content,
               unique_sources))"

section \<open>Lemmas on the source processor\<close>

lemma digit_char_inj: "a < 10 \<Longrightarrow> b < 10 \<Longrightarrow> digit_char a = digit_char b \<Longrightarrow> a = b"
proof -
  assume a: "a < 10" and b: "b < 10" and e: "digit_char a = digit_char b"
  have da: "a \<in> {0,1,2,3,4,5,6,7,8,9}" using a by auto
  have db: "b \<in> {0,1,2,3,4,5,6,7,8,9}" using b by auto
  show ?thesis using da db e by (auto simp: digit_char_def)
qed

lemma str_nat_nonempty: "str_nat n \<noteq> []"
  by (subst str_nat.simps) simp

lemma str_nat_inj: "str_nat n = str_nat m \<Longrightarrow> n = m"
proof (induction n arbitrary: m rule: str_nat.induct)
  case (1 n)
  show ?case
  proof (cases "n < 10")
    case True
    note n = this
    show ?thesis
    proof (cases "m < 10")
      case True
      from "1.prems" n True have "digit_char n = digit_char m"
        by (subst (asm) str_nat.simps, subst (asm) (2) str_nat.simps) simp
      with n True show ?thesis by (intro digit_char_inj)
    next
      case False
      from "1.prems" n False have "[digit_char n] = str_nat (m div 10) @ [digit_char (m mod 10)]"
        by (subst (asm) str_nat.simps, subst (asm) (2) str_nat.simps) simp
      then have "str_nat (m div 10) = []" by simp
      with str_nat_nonempty show ?thesis by blast
    qed
  next
    case False
    note n = this
    show ?thesis
    proof (cases "m < 10")
      case True
      from "1.prems" n True have "str_nat (n div 10) @ [digit_char (n mod 10)] = [digit_char m]"
        by (subst (asm) str_nat.simps, subst (asm) (2) str_nat.simps) simp
      then have "str_nat (n div 10) = []" by simp
      with str_nat_nonempty show ?thesis by blast
    next
      case False
      from "1.prems" n False
      have "str_nat (n div 10) @ [digit_char (n mod 10)] = str_nat (m div 10) @ [digit_char (m mod 10)]"
        by (subst (asm) str_nat.simps, subst (asm) (2) str_nat.simps) simp
      then have a: "str_nat (n div 10) = str_nat (m div 10)"
        and b: "digit_char (n mod 10) = digit_char (m mod 10)" by simp_all
      from "1.IH"[OF n a] have c: "n div 10 = m div 10" .
      from b have d: "n mod 10 = m mod 10" by (intro digit_char_inj) simp_all
      from c d show ?thesis by (metis div_mult_mod_eq)
    qed
  qed
qed

lemma source_id_inj: "0 \<le> a \<Longrightarrow> 0 \<le> b \<Longrightarrow> source_id a = source_id b \<Longrightarrow> a = b"
proof -
  assume a: "0 \<le> a" and b: "0 \<le> b" and e: "source_id a = source_id b"
  from e a b have "str_nat (nat a) = str_nat (nat b)"
    by (simp add: source_id_def str_int_def)
  then have "nat a = nat b" by (rule str_nat_inj)
  with a b show ?thesis by simp
qed

lemma py_strip_id:
  assumes "s \<noteq> []" and "\<not> is_space (hd s)" and "\<not> is_space (last s)"
  shows "py_strip s = s"
proof -
  from assms have a: "dropWhile is_space s = s" by (simp add: dropWhile_eq_self_iff)
  from assms have "dropWhile is_space (rev s) = rev s"
    by (simp add: dropWhile_eq_self_iff hd_rev)
  with a show ?thesis by (simp add: py_strip_def)
qed

lemma digit_char_not_space: "d < 10 \<Longrightarrow> \<not> is_space (digit_char d)"
proof -
  assume "d < 10"
  then have "d \<in> {0,1,2,3,4,5,6,7,8,9}" by auto
  then show ?thesis by (auto simp: digit_char_def is_space_def)
qed

lemma last_str_nat: "last (str_nat n) = digit_char (n mod 10)"
  by (subst str_nat.simps) simp

lemma py_strip_placeholder:
  "py_strip (''Search Result '' @ str_nat n) = ''Search Result '' @ str_nat n"
proof (rule py_strip_id)
  show "''Search Result '' @ str_nat n \<noteq> []" by simp
  show "\<not> is_space (hd (''Search Result '' @ str_nat n))" by (simp add: is_space_def)
  have "last (''Search Result '' @ str_nat n) = digit_char (n mod 10)"
    using str_nat_nonempty[of n] by (simp add: last_str_nat)
  then show "\<not> is_space (last (''Search Result '' @ str_nat n))"
    by (simp add: digit_char_not_space)
qed


lemma process_result_SomeD:
  assumes "process_result cnt mx mn x = Inr (Some (f, g))"
  shows "\<exists>d title url c. x = PDict d
      \<and> strip_value (dict_get d ''title'' (PStr (''Search Result '' @ str_int (cnt + 1)))) = Inr title
      \<and> strip_value (dict_get d ''url'' (PStr [])) = Inr url
      \<and> strip_value (dict_get d ''content'' (PStr [])) = Inr c
      \<and> mn \<le> int (length (validate_and_clean_content (PStr c)))
      \<and> f = formatted_source (cnt + 1) title url
              (truncate_content mx (validate_and_clean_content (PStr c)))
      \<and> g = source_metadata (cnt + 1) title url
              (truncate_content mx (validate_and_clean_content (PStr c)))"
proof (cases x)
  case (PDict d)
  from assms PDict obtain title where
    t: "strip_value (dict_get d ''title'' (PStr (''Search Result '' @ str_int (cnt + 1)))) = Inr title"
    unfolding process_result_def by (simp split: sum.splits)
  from assms PDict t obtain url where
    u: "strip_value (dict_get d ''url'' (PStr [])) = Inr url"
    unfolding process_result_def by (simp split: sum.splits)
  from assms PDict t u obtain c where
    c: "strip_value (dict_get d ''content'' (PStr [])) = Inr c"
    unfolding process_result_def by (simp split: sum.splits)
  from assms PDict t u c
  have r: "mn \<le> int (length (validate_and_clean_content (PStr c)))
     \<and> f = formatted_source (cnt + 1) title url
              (truncate_content mx (validate_and_clean_content (PStr c)))
     \<and> g = source_metadata (cnt + 1) title url
              (truncate_content mx (validate_and_clean_content (PStr c)))"
    unfolding process_result_def
    by (simp add: Let_def del: validate_and_clean_content.simps split: if_splits)
  from PDict t u c r show ?thesis by blast
qed (use assms in \<open>simp_all add: process_result_def\<close>)

lemma process_loop_shape:
  "process_loop mr mx mn xs cnt fs gs = Inr (fs', gs') \<Longrightarrow>
   \<exists>fs2 gs2. fs' = fs @ fs2 \<and> gs' = gs @ gs2 \<and> length fs2 = length gs2
     \<and> int (length gs2) \<le> max 0 (mr - cnt)
     \<and> (\<forall>j < length gs2. \<exists>x \<in> set xs.
           process_result (cnt + int j) mx mn x = Inr (Some (fs2 ! j, gs2 ! j)))"
proof (induction xs arbitrary: cnt fs gs)
  case Nil
  then show ?case by simp
next
  case (Cons x xs)
  show ?case
  proof (cases "cnt \<ge> mr")
    case True
    with Cons.prems show ?thesis by simp
  next
    case False
    note running = this
    show ?thesis
    proof (cases "process_result cnt mx mn x")
      case (Inl e)
      with Cons.prems running show ?thesis by simp
    next
      case (Inr r)
      show ?thesis
      proof (cases r)
        case None
        with Inr Cons.prems running
        have "process_loop mr mx mn xs cnt fs gs = Inr (fs', gs')" by simp
        from Cons.IH[OF this] obtain fs2 gs2 where
          h: "fs' = fs @ fs2" "gs' = gs @ gs2" "length fs2 = length gs2"
             "int (length gs2) \<le> max 0 (mr - cnt)"
          and all: "\<forall>j < length gs2. \<exists>x \<in> set xs.
             process_result (cnt + int j) mx mn x = Inr (Some (fs2 ! j, gs2 ! j))"
          by blast
        from all have "\<forall>j < length gs2. \<exists>y \<in> set (x # xs).
             process_result (cnt + int j) mx mn y = Inr (Some (fs2 ! j, gs2 ! j))"
          by simp
        with h show ?thesis by blast
      next
        case (Some fg)
        obtain f g where fg: "fg = (f, g)" by (cases fg)
        from Some fg Inr Cons.prems running
        have run: "process_loop mr mx mn xs (cnt + 1) (fs @ [f]) (gs @ [g]) = Inr (fs', gs')"
          by simp
        from Inr Some fg have x0: "process_result cnt mx mn x = Inr (Some (f, g))" by simp
        from Cons.IH[OF run] obtain fs2 gs2 where
          h: "fs' = (fs @ [f]) @ fs2" "gs' = (gs @ [g]) @ gs2" "length fs2 = length gs2"
             "int (length gs2) \<le> max 0 (mr - (cnt + 1))"
          and all: "\<forall>j < length gs2. \<exists>x \<in> set xs.
             process_result (cnt + 1 + int j) mx mn x = Inr (Some (fs2 ! j, gs2 ! j))"
          by blast
        have a: "fs' = fs @ (f # fs2)" "gs' = gs @ (g # gs2)" "length (f # fs2) = length (g # gs2)"
          using h by simp_all
        have b: "int (length (g # gs2)) \<le> max 0 (mr - cnt)" using h(4) running by simp
        have c: "\<exists>y \<in> set (x # xs).
             process_result (cnt + int j) mx mn y = Inr (Some ((f # fs2) ! j, (g # gs2) ! j))"
          if j: "j < length (g # gs2)" for j
        proof (cases j)
          case 0
          with x0 show ?thesis by simp
        next
          case (Suc k)
          with j have k: "k < length gs2" by simp
          have e: "cnt + 1 + int k = cnt + int j" using Suc by simp
          from all k obtain y where "y \<in> set xs"
            "process_result (cnt + 1 + int k) mx mn y = Inr (Some (fs2 ! k, gs2 ! k))"
            by blast
          then show ?thesis unfolding e using Suc by auto
        qed
        from a b c show ?thesis by blast
      qed
    qed
  qed
qed

lemma process_loop_stop:
  "process_loop mr mx mn xs cnt fs gs = Inr (fs', gs') \<Longrightarrow>
   mr \<le> cnt + int (length gs') - int (length gs) \<Longrightarrow>
   process_loop mr mx mn (xs @ ys) cnt fs gs = Inr (fs', gs')"
proof (induction xs arbitrary: cnt fs gs)
  case Nil
  then show ?case by (cases ys) simp_all
next
  case (Cons x xs)
  show ?case
  proof (cases "cnt \<ge> mr")
    case True
    with Cons.prems show ?thesis by simp
  next
    case False
    note running = this
    show ?thesis
    proof (cases "process_result cnt mx mn x")
      case (Inl e)
      with Cons.prems running show ?thesis by simp
    next
      case (Inr r)
      show ?thesis
      proof (cases r)
        case None
        with Inr Cons.prems running
        have "process_loop mr mx mn xs cnt fs gs = Inr (fs', gs')" by simp
        from Cons.IH[OF this Cons.prems(2)] None Inr running show ?thesis by simp
      next
        case (Some fg)
        obtain f g where fg: "fg = (f, g)" by (cases fg)
        from Some fg Inr Cons.prems running
        have run: "process_loop mr mx mn xs (cnt + 1) (fs @ [f]) (gs @ [g]) = Inr (fs', gs')"
          by simp
        have "mr \<le> cnt + 1 + int (length gs') - int (length (gs @ [g]))"
          using Cons.prems(2) by simp
        from Cons.IH[OF run this] Some fg Inr running show ?thesis by simp
      qed
    qed
  qed
qed

lemma process_shape:
  assumes "process_search_results_for_ai loads resp mr mx mn = Inr (fs, recs)"
  shows "\<exists>raw. py_iter (extract_tavily_results loads resp) = Inr raw
     \<and> length fs = length recs \<and> int (length recs) \<le> max 0 mr
     \<and> (\<forall>j < length recs. \<exists>x \<in> set raw.
           process_result (int j) mx mn x = Inr (Some (fs ! j, recs ! j)))"
proof -
  from assms obtain raw where
    raw: "py_iter (extract_tavily_results loads resp) = Inr raw"
    and run: "process_loop mr mx mn raw 0 [] [] = Inr (fs, recs)"
    unfolding process_search_results_for_ai_def by (auto split: sum.splits)
  from process_loop_shape[OF run] raw show ?thesis by auto
qed

lemma source_metadata_fields:
  "map_of (source_metadata n t u c) ''title'' = Some t"
  "map_of (source_metadata n t u c) ''url'' = Some u"
  "map_of (source_metadata n t u c) ''content'' = Some c"
  "map_of (source_metadata n t u c) ''short_url'' = Some (source_id n)"
  "map_of (source_metadata n t u c) ''value'' = Some u"
  "map_of (source_metadata n t u c) ''label'' = Some t"
  by (simp_all add: source_metadata_def)

lemma record_at:
  assumes "process_search_results_for_ai loads resp mr mx mn = Inr (fs, recs)"
    and "j < length recs"
  shows "\<exists>raw d title url c. py_iter (extract_tavily_results loads resp) = Inr raw
      \<and> PDict d \<in> set raw
      \<and> strip_value (dict_get d ''title'' (PStr (''Search Result '' @ str_int (int j + 1)))) = Inr title
      \<and> strip_value (dict_get d ''url'' (PStr [])) = Inr url
      \<and> strip_value (dict_get d ''content'' (PStr [])) = Inr c
      \<and> mn \<le> int (length (validate_and_clean_content (PStr c)))
      \<and> recs ! j = source_metadata (int j + 1) title url
              (truncate_content mx (validate_and_clean_content (PStr c)))"
proof -
  from process_shape[OF assms(1)] assms(2) obtain raw x where
    raw: "py_iter (extract_tavily_results loads resp) = Inr raw" and x: "x \<in> set raw"
    and r: "process_result (int j) mx mn x = Inr (Some (fs ! j, recs ! j))"
    by blast
  from process_result_SomeD[OF r] x raw show ?thesis by blast
qed

lemma filter_below_Suc_map:
  "length (filter (\<lambda>k. k < Suc i) (map Suc js)) = length (filter (\<lambda>k. k < i) js)"
  by (induction js) auto

text \<open>
  The loop, told by positions: the raw results that gave a record, in increasing order, and
  what happened to the others.
\<close>

lemma process_loop_trace:
  "process_loop mr mx mn xs cnt fs gs = Inr (fs', gs') \<Longrightarrow>
   \<exists>js fs2 gs2. fs' = fs @ fs2 \<and> gs' = gs @ gs2
     \<and> length fs2 = length js \<and> length gs2 = length js \<and> sorted_wrt (<) js
     \<and> (\<forall>j < length js. js ! j < length xs \<and> cnt + int j < mr
           \<and> process_result (cnt + int j) mx mn (xs ! (js ! j)) = Inr (Some (fs2 ! j, gs2 ! j)))
     \<and> (\<forall>i < length xs. i \<notin> set js \<longrightarrow>
           mr \<le> cnt + int (length (filter (\<lambda>k. k < i) js))
           \<or> process_result (cnt + int (length (filter (\<lambda>k. k < i) js))) mx mn (xs ! i)
               = Inr None)"
proof (induction xs arbitrary: cnt fs gs)
  case Nil
  then have "fs' = fs @ []" "gs' = gs @ []" by simp_all
  then show ?case by (intro exI[of _ "[]"]) simp
next
  case (Cons x xs)
  show ?case
  proof (cases "cnt \<ge> mr")
    case True
    with Cons.prems have "fs' = fs @ []" "gs' = gs @ []" by simp_all
    with True show ?thesis by (intro exI[of _ "[]"]) simp
  next
    case False
    note running = this
    show ?thesis
    proof (cases "process_result cnt mx mn x")
      case (Inl e)
      with Cons.prems running show ?thesis by simp
    next
      case (Inr r)
      show ?thesis
      proof (cases r)
        case None
        with Inr have skip: "process_result cnt mx mn x = Inr None" by simp
        with Cons.prems running
        have "process_loop mr mx mn xs cnt fs gs = Inr (fs', gs')" by simp
        from Cons.IH[OF this] obtain js fs2 gs2 where
          eq: "fs' = fs @ fs2" "gs' = gs @ gs2" "length fs2 = length js" "length gs2 = length js"
          and srt: "sorted_wrt (<) js"
          and acc: "\<And>j. j < length js \<Longrightarrow> js ! j < length xs \<and> cnt + int j < mr
               \<and> process_result (cnt + int j) mx mn (xs ! (js ! j)) = Inr (Some (fs2 ! j, gs2 ! j))"
          and rej: "\<And>i. i < length xs \<Longrightarrow> i \<notin> set js \<Longrightarrow>
               mr \<le> cnt + int (length (filter (\<lambda>k. k < i) js))
               \<or> process_result (cnt + int (length (filter (\<lambda>k. k < i) js))) mx mn (xs ! i)
                   = Inr None"
          by blast
        let ?js = "map Suc js"
        have 1: "length fs2 = length ?js" "length gs2 = length ?js" using eq by simp_all
        have 2: "sorted_wrt (<) ?js" using srt by (simp add: sorted_wrt_map)
        have 3: "?js ! j < length (x # xs) \<and> cnt + int j < mr
               \<and> process_result (cnt + int j) mx mn ((x # xs) ! (?js ! j))
                   = Inr (Some (fs2 ! j, gs2 ! j))" if "j < length ?js" for j
          using acc[of j] that by simp
        have 4: "mr \<le> cnt + int (length (filter (\<lambda>k. k < i) ?js))
               \<or> process_result (cnt + int (length (filter (\<lambda>k. k < i) ?js))) mx mn ((x # xs) ! i)
                   = Inr None" if "i < length (x # xs)" "i \<notin> set ?js" for i
        proof (cases i)
          case 0
          then have "filter (\<lambda>k. k < i) ?js = []" by simp
          with 0 skip show ?thesis by simp
        next
          case (Suc i')
          with that have "i' < length xs" "i' \<notin> set js" by auto
          from rej[OF this] show ?thesis
            unfolding Suc filter_below_Suc_map by simp
        qed
        from eq(1,2) 1 2 3 4 show ?thesis by blast
      next
        case (Some fg)
        obtain f g where fg: "fg = (f, g)" by (cases fg)
        with Some Inr have hit: "process_result cnt mx mn x = Inr (Some (f, g))" by simp
        with Cons.prems running
        have "process_loop mr mx mn xs (cnt + 1) (fs @ [f]) (gs @ [g]) = Inr (fs', gs')"
          by simp
        from Cons.IH[OF this] obtain js fs2 gs2 where
          eq: "fs' = (fs @ [f]) @ fs2" "gs' = (gs @ [g]) @ gs2"
              "length fs2 = length js" "length gs2 = length js"
          and srt: "sorted_wrt (<) js"
          and acc: "\<And>j. j < length js \<Longrightarrow> js ! j < length xs \<and> cnt + 1 + int j < mr
               \<and> process_result (cnt + 1 + int j) mx mn (xs ! (js ! j))
                   = Inr (Some (fs2 ! j, gs2 ! j))"
          and rej: "\<And>i. i < length xs \<Longrightarrow> i \<notin> set js \<Longrightarrow>
               mr \<le> cnt + 1 + int (length (filter (\<lambda>k. k < i) js))
               \<or> process_result (cnt + 1 + int (length (filter (\<lambda>k. k < i) js))) mx mn (xs ! i)
                   = Inr None"
          by blast
        let ?js = "0 # map Suc js"
        have 0: "fs' = fs @ (f # fs2)" "gs' = gs @ (g # gs2)" using eq by simp_all
        have 1: "length (f # fs2) = length ?js" "length (g # gs2) = length ?js"
          using eq by simp_all
        have 2: "sorted_wrt (<) ?js" using srt by (simp add: sorted_wrt_map)
        have 3: "?js ! j < length (x # xs) \<and> cnt + int j < mr
               \<and> process_result (cnt + int j) mx mn ((x # xs) ! (?js ! j))
                   = Inr (Some ((f # fs2) ! j, (g # gs2) ! j))" if "j < length ?js" for j
        proof (cases j)
          case 0
          with hit running show ?thesis by simp
        next
          case (Suc j')
          with that have "j' < length js" by simp
          from acc[OF this] have "js ! j' < length xs" "cnt + 1 + int j' < mr"
            "process_result (cnt + 1 + int j') mx mn (xs ! (js ! j'))
                = Inr (Some (fs2 ! j', gs2 ! j'))" by simp_all
          moreover have "cnt + 1 + int j' = cnt + int j" using Suc by simp
          ultimately show ?thesis using Suc \<open>j' < length js\<close> by simp
        qed
        have 4: "mr \<le> cnt + int (length (filter (\<lambda>k. k < i) ?js))
               \<or> process_result (cnt + int (length (filter (\<lambda>k. k < i) ?js))) mx mn ((x # xs) ! i)
                   = Inr None" if "i < length (x # xs)" "i \<notin> set ?js" for i
        proof (cases i)
          case 0
          with that show ?thesis by simp
        next
          case (Suc i')
          with that have "i' < length xs" "i' \<notin> set js" by auto
          from rej[OF this]
          have "mr \<le> cnt + 1 + int (length (filter (\<lambda>k. k < i') js))
               \<or> process_result (cnt + 1 + int (length (filter (\<lambda>k. k < i') js))) mx mn (xs ! i')
                   = Inr None" .
          moreover have "length (filter (\<lambda>k. k < i) ?js) = Suc (length (filter (\<lambda>k. k < i') js))"
            unfolding Suc by (simp add: comp_def)
          then have "cnt + int (length (filter (\<lambda>k. k < i) ?js))
               = cnt + 1 + int (length (filter (\<lambda>k. k < i') js))" by simp
          ultimately show ?thesis using Suc by (simp add: add.assoc)
        qed
        from 0 1 2 3 4 show ?thesis by blast
      qed
    qed
  qed
qed

section \<open>Properties of the source processor\<close>

text \<open>A small run, used below: one raw result without title and url, truncated to five characters.\<close>

lemma small_run:
  "process_search_results_for_ai reject_json
     (PList [PDict [(''content'', PStr ''hello world'')]]) 1 5 3
   = Inr ([''=== Source 1 ===\<newline>Title: Search Result 1\<newline>URL: \<newline>Content: hello...\<newline>==================''],
          [[(''title'', ''Search Result 1''), (''url'', []), (''content'', ''hello...''),
            (''short_url'', ''[1]''), (''value'', []), (''label'', ''Search Result 1'')]])"
  by code_simp

text \<open>
  Claim C1. Let the call return, with \<open>0 \<le> max_content_length\<close> and
  \<open>min_content_length \<le> max_content_length\<close>. Every record comes from a raw result of
  the response whose sanitized content has at least \<open>min_content_length\<close> characters,
  so a raw result with a shorter sanitized content gives no record; and the record's content
  is either that sanitized text, of at most \<open>max_content_length\<close> characters, or its
  first \<open>max_content_length\<close> characters followed by the truncation marker \<open>...\<close>.
  Not counting the marker, the length lies between the two bounds.
\<close>

theorem content_length_bounds:
  assumes "process_search_results_for_ai loads resp mr mx mn = Inr (fs, recs)"
    and "0 \<le> mx" and "mn \<le> mx" and "r \<in> set recs"
  shows "\<exists>raw d c clean. py_iter (extract_tavily_results loads resp) = Inr raw
      \<and> PDict d \<in> set raw
      \<and> strip_value (dict_get d ''content'' (PStr [])) = Inr c
      \<and> clean = validate_and_clean_content (PStr c)
      \<and> mn \<le> int (length clean)
      \<and> (map_of r ''content'' = Some clean \<and> int (length clean) \<le> mx
          \<or> map_of r ''content'' = Some (take (nat mx) clean @ ''...'')
            \<and> int (length (take (nat mx) clean)) = mx \<and> mx < int (length clean))"
proof -
  from assms(4) obtain j where j: "j < length recs" and rj: "r = recs ! j"
    by (auto simp: in_set_conv_nth)
  from record_at[OF assms(1) j] obtain raw d title url c where
    raw: "py_iter (extract_tavily_results loads resp) = Inr raw" "PDict d \<in> set raw"
    and c: "strip_value (dict_get d ''content'' (PStr [])) = Inr c"
    and len: "mn \<le> int (length (validate_and_clean_content (PStr c)))"
    and rec: "recs ! j = source_metadata (int j + 1) title url
              (truncate_content mx (validate_and_clean_content (PStr c)))"
    by blast
  define clean where "clean = validate_and_clean_content (PStr c)"
  from rec rj have content: "map_of r ''content'' = Some (truncate_content mx clean)"
    by (simp only: source_metadata_fields clean_def)
  have "map_of r ''content'' = Some clean \<and> int (length clean) \<le> mx
          \<or> map_of r ''content'' = Some (take (nat mx) clean @ ''...'')
            \<and> int (length (take (nat mx) clean)) = mx \<and> mx < int (length clean)"
  proof (cases "int (length clean) > mx")
    case True
    with assms(2) have "truncate_content mx clean = take (nat mx) clean @ ''...''"
      by (simp add: truncate_content_def py_slice_to_def)
    moreover from True assms(2) have "int (length (take (nat mx) clean)) = mx" by simp
    ultimately show ?thesis using content True by simp
  next
    case False
    then have "truncate_content mx clean = clean" by (simp add: truncate_content_def)
    with content False show ?thesis by simp
  qed
  with raw c len clean_def show ?thesis by blast
qed

theorem content_length_bounds_witness:
  "\<exists>raw d c clean.
      py_iter (extract_tavily_results reject_json
        (PList [PDict [(''content'', PStr ''hello world'')]])) = Inr raw
      \<and> PDict d \<in> set raw
      \<and> strip_value (dict_get d ''content'' (PStr [])) = Inr c
      \<and> clean = validate_and_clean_content (PStr c)
      \<and> 3 \<le> int (length clean)
      \<and> (map_of [(''title'', ''Search Result 1''), (''url'', []), (''content'', ''hello...''),
            (''short_url'', ''[1]''), (''value'', []), (''label'', ''Search Result 1'')] ''content''
             = Some clean \<and> int (length clean) \<le> 5
          \<or> map_of [(''title'', ''Search Result 1''), (''url'', []), (''content'', ''hello...''),
            (''short_url'', ''[1]''), (''value'', []), (''label'', ''Search Result 1'')] ''content''
             = Some (take (nat 5) clean @ ''...'')
            \<and> int (length (take (nat 5) clean)) = 5 \<and> 5 < int (length clean))"
  using content_length_bounds[OF small_run, of
      "[(''title'', ''Search Result 1''), (''url'', []), (''content'', ''hello...''),
        (''short_url'', ''[1]''), (''value'', []), (''label'', ''Search Result 1'')]"]
  by simp

text \<open>
  Claim C2. Whenever \<open>process_search_results_for_ai\<close> returns, the \<open>short_url\<close>
  fields of its records are, in order, \<open>[1]\<close>, \<open>[2]\<close>, ..., \<open>[k]\<close> for the \<open>k\<close>
  records returned: no gap and no duplicate, whatever raw results were skipped.
\<close>

theorem citation_markers_dense:
  assumes "process_search_results_for_ai loads resp mr mx mn = Inr (fs, recs)"
  shows "map (\<lambda>r. map_of r ''short_url'') recs
           = map (\<lambda>k. Some (''['' @ str_nat k @ '']'')) [1..<Suc (length recs)]
       \<and> distinct (map (\<lambda>r. map_of r ''short_url'') recs)"
proof -
  have nth: "map_of (recs ! j) ''short_url'' = Some (''['' @ str_nat (Suc j) @ '']'')"
    if "j < length recs" for j
  proof -
    from record_at[OF assms that] obtain title url c where
      "recs ! j = source_metadata (int j + 1) title url
              (truncate_content mx (validate_and_clean_content (PStr c)))" by blast
    then have "map_of (recs ! j) ''short_url'' = Some (source_id (int j + 1))"
      by (simp only: source_metadata_fields)
    moreover have "source_id (int j + 1) = ''['' @ str_nat (Suc j) @ '']''"
      by (simp add: source_id_def str_int_def nat_add_distrib)
    ultimately show ?thesis by simp
  qed
  have eq: "map (\<lambda>r. map_of r ''short_url'') recs
           = map (\<lambda>k. Some (''['' @ str_nat k @ '']'')) [1..<Suc (length recs)]"
  proof (rule nth_equalityI)
    show "length (map (\<lambda>r. map_of r ''short_url'') recs)
        = length (map (\<lambda>k. Some (''['' @ str_nat k @ '']'')) [1..<Suc (length recs)])"
      by (simp del: upt_Suc)
  next
    fix i assume "i < length (map (\<lambda>r. map_of r ''short_url'') recs)"
    then have i: "i < length recs" by simp
    then have "[1..<Suc (length recs)] ! i = Suc i"
      by (simp del: upt_Suc)
    with i nth[OF i] show "map (\<lambda>r. map_of r ''short_url'') recs ! i
        = map (\<lambda>k. Some (''['' @ str_nat k @ '']'')) [1..<Suc (length recs)] ! i"
      by (simp del: upt_Suc)
  qed
  have "inj_on (\<lambda>k. Some (''['' @ str_nat k @ '']'')) (set [1..<Suc (length recs)])"
    by (rule inj_onI) (auto dest: str_nat_inj)
  then have "distinct (map (\<lambda>k. Some (''['' @ str_nat k @ '']'')) [1..<Suc (length recs)])"
    by (simp add: distinct_map del: upt_Suc)
  with eq show ?thesis by simp
qed

theorem citation_markers_dense_witness:
  "process_search_results_for_ai reject_json
     (PList [PDict [(''content'', PStr ''hello world'')]]) 1 5 3
   = Inr ([''=== Source 1 ===\<newline>Title: Search Result 1\<newline>URL: \<newline>Content: hello...\<newline>==================''],
          [[(''title'', ''Search Result 1''), (''url'', []), (''content'', ''hello...''),
            (''short_url'', ''[1]''), (''value'', []), (''label'', ''Search Result 1'')]])
   \<and> map (\<lambda>r. map_of r ''short_url'')
         [[(''title'', ''Search Result 1''), (''url'', []), (''content'', ''hello...''),
            (''short_url'', ''[1]''), (''value'', []), (''label'', ''Search Result 1'')]]
       = map (\<lambda>k. Some (''['' @ str_nat k @ '']'')) [1..<Suc (length
         [[(''title'', ''Search Result 1''), (''url'', []), (''content'', ''hello...''),
            (''short_url'', ''[1]''), (''value'', []), (''label'', ''Search Result 1'')]])]
   \<and> distinct (map (\<lambda>r. map_of r ''short_url'')
         [[(''title'', ''Search Result 1''), (''url'', []), (''content'', ''hello...''),
            (''short_url'', ''[1]''), (''value'', []), (''label'', ''Search Result 1'')]])"
  using small_run citation_markers_dense[OF small_run] by blast

text \<open>
  Claim C3. A call that returns gives at most \<open>max_results\<close> records (none when
  \<open>max_results\<close> is negative). Once the accepted count has reached \<open>max_results\<close>
  the rest of the raw results is not looked at: appending any raw results, even ones on which
  the loop body would raise, leaves the outcome as it is.
\<close>

theorem max_results_stop:
  assumes "process_search_results_for_ai loads resp mr mx mn = Inr (fs, recs)"
  shows "length recs \<le> nat mr
     \<and> (\<forall>raw resp' rest. py_iter (extract_tavily_results loads resp) = Inr raw
            \<and> py_iter (extract_tavily_results loads resp') = Inr (raw @ rest)
            \<and> mr \<le> int (length recs)
          \<longrightarrow> process_search_results_for_ai loads resp' mr mx mn = Inr (fs, recs))"
proof -
  from process_shape[OF assms] have "int (length recs) \<le> max 0 mr" by blast
  then have a: "length recs \<le> nat mr" by linarith
  have b: "process_search_results_for_ai loads resp' mr mx mn = Inr (fs, recs)"
    if raw: "py_iter (extract_tavily_results loads resp) = Inr raw"
      and raw': "py_iter (extract_tavily_results loads resp') = Inr (raw @ rest)"
      and full: "mr \<le> int (length recs)" for raw resp' rest
  proof -
    from assms raw have run: "process_loop mr mx mn raw 0 [] [] = Inr (fs, recs)"
      by (simp add: process_search_results_for_ai_def)
    from full have "mr \<le> 0 + int (length recs) - int (length ([] :: source list))" by simp
    from process_loop_stop[OF run this]
    have "process_loop mr mx mn (raw @ rest) 0 [] [] = Inr (fs, recs)" .
    with raw' show ?thesis by (simp add: process_search_results_for_ai_def)
  qed
  from a b show ?thesis by blast
qed

theorem max_results_stop_witness:
  "length [[(''title'', ''Search Result 1''), (''url'', []), (''content'', ''hello...''),
            (''short_url'', ''[1]''), (''value'', []), (''label'', ''Search Result 1'')]] \<le> nat 1
   \<and> py_iter (extract_tavily_results reject_json
         (PList [PDict [(''content'', PStr ''hello world'')]]))
       = Inr [PDict [(''content'', PStr ''hello world'')]]
   \<and> py_iter (extract_tavily_results reject_json
         (PList [PDict [(''content'', PStr ''hello world'')], PDict [(''title'', PNone)]]))
       = Inr ([PDict [(''content'', PStr ''hello world'')]] @ [PDict [(''title'', PNone)]])
   \<and> process_search_results_for_ai reject_json
     (PList [PDict [(''content'', PStr ''hello world'')], PDict [(''title'', PNone)]]) 1 5 3
   = Inr ([''=== Source 1 ===\<newline>Title: Search Result 1\<newline>URL: \<newline>Content: hello...\<newline>==================''],
          [[(''title'', ''Search Result 1''), (''url'', []), (''content'', ''hello...''),
            (''short_url'', ''[1]''), (''value'', []), (''label'', ''Search Result 1'')]])"
proof -
  have a: "py_iter (extract_tavily_results reject_json
         (PList [PDict [(''content'', PStr ''hello world'')]]))
       = Inr [PDict [(''content'', PStr ''hello world'')]]" by simp
  have b: "py_iter (extract_tavily_results reject_json
         (PList [PDict [(''content'', PStr ''hello world'')], PDict [(''title'', PNone)]]))
       = Inr ([PDict [(''content'', PStr ''hello world'')]] @ [PDict [(''title'', PNone)]])"
    by simp
  have c: "(1::int) \<le> int (length [[(''title'', ''Search Result 1''), (''url'', []), (''content'', ''hello...''),
            (''short_url'', ''[1]''), (''value'', []), (''label'', ''Search Result 1'')]])" by simp
  from max_results_stop[OF small_run] a b c show ?thesis by blast
qed

text \<open>
  Claim C4 fails on the code: a result whose \<open>title\<close> is \<open>None\<close> makes
  \<open>process_search_results_for_ai\<close> raise \<open>AttributeError\<close>, because the value is
  stripped before any type check.
\<close>

theorem mistyped_title_raises:
  "process_search_results_for_ai reject_json
     (PDict [(''results'', PList [PDict [(''title'', PNone), (''url'', PStr ''http://x.com/a''),
                    (''content'', PStr ''A long enough piece of content.'')]])]) 5 1500 20
   = Inl AttributeError"
  by code_simp

text \<open>
  Claim C5 as stated fails: a raw result that supplies the empty title is accepted, and its
  record carries the empty title.
\<close>

theorem empty_title_counterexample:
  "process_search_results_for_ai reject_json
     (PList [PDict [(''title'', PStr ''''), (''url'', PStr ''http://x.com/a''),
                    (''content'', PStr ''hello world'')]]) 5 1500 3
   = Inr ([''=== Source 1 ===\<newline>Title: \<newline>URL: http://x.com/a\<newline>Content: hello world\<newline>==================''],
          [[(''title'', []), (''url'', ''http://x.com/a''), (''content'', ''hello world''),
            (''short_url'', ''[1]''), (''value'', ''http://x.com/a''), (''label'', [])]])"
  by code_simp

text \<open>
  Claim C5, as amended. Every record takes its title from its own raw result, the one at the
  position from which the loop built it: the records come, in order, from increasing
  positions of the raw results, each of the other positions was skipped or never reached,
  and the record of rank \<open>j + 1\<close> is what the loop body makes of the raw result at the
  \<open>j\<close>-th of these positions. Where that raw result has no \<open>title\<close> key, the title
  is the placeholder \<open>Search Result\<close> followed by the rank, which is not empty; where it
  has one, the title is the supplied text with surrounding whitespace stripped.
\<close>

theorem title_supplied_or_placeholder:
  assumes "process_search_results_for_ai loads resp mr mx mn = Inr (fs, recs)"
  shows "\<exists>raw js. py_iter (extract_tavily_results loads resp) = Inr raw
      \<and> length js = length recs \<and> length fs = length recs \<and> sorted_wrt (<) js
      \<and> (\<forall>j < length recs. js ! j < length raw \<and> int j < mr
            \<and> process_result (int j) mx mn (raw ! (js ! j)) = Inr (Some (fs ! j, recs ! j))
            \<and> (\<exists>d. raw ! (js ! j) = PDict d
                \<and> (case map_of d ''title'' of
                      None \<Rightarrow>
                        map_of (recs ! j) ''title'' = Some (''Search Result '' @ str_nat (Suc j))
                        \<and> dict_get (recs ! j) ''title'' [] \<noteq> []
                    | Some v \<Rightarrow>
                        \<exists>t. v = PStr t \<and> map_of (recs ! j) ''title'' = Some (py_strip t))))
      \<and> (\<forall>i < length raw. i \<notin> set js \<longrightarrow>
            mr \<le> int (length (filter (\<lambda>k. k < i) js))
            \<or> process_result (int (length (filter (\<lambda>k. k < i) js))) mx mn (raw ! i)
                = Inr None)"
proof -
  from assms obtain raw where
    raw: "py_iter (extract_tavily_results loads resp) = Inr raw"
    and run: "process_loop mr mx mn raw 0 [] [] = Inr (fs, recs)"
    unfolding process_search_results_for_ai_def by (auto split: sum.splits)
  from process_loop_trace[OF run] obtain js where
    len: "length fs = length js" "length recs = length js" and srt: "sorted_wrt (<) js"
    and acc: "\<And>j. j < length js \<Longrightarrow> js ! j < length raw \<and> int j < mr
         \<and> process_result (int j) mx mn (raw ! (js ! j)) = Inr (Some (fs ! j, recs ! j))"
    and rej: "\<forall>i < length raw. i \<notin> set js \<longrightarrow>
            mr \<le> int (length (filter (\<lambda>k. k < i) js))
            \<or> process_result (int (length (filter (\<lambda>k. k < i) js))) mx mn (raw ! i)
                = Inr None"
    by auto
  have title: "\<exists>d. raw ! (js ! j) = PDict d
                \<and> (case map_of d ''title'' of
                      None \<Rightarrow>
                        map_of (recs ! j) ''title'' = Some (''Search Result '' @ str_nat (Suc j))
                        \<and> dict_get (recs ! j) ''title'' [] \<noteq> []
                    | Some v \<Rightarrow>
                        \<exists>t. v = PStr t \<and> map_of (recs ! j) ''title'' = Some (py_strip t))"
    if j: "j < length js" for j
  proof -
    from acc[OF j]
    have r: "process_result (int j) mx mn (raw ! (js ! j)) = Inr (Some (fs ! j, recs ! j))"
      by simp
    from process_result_SomeD[OF r] obtain d title url c where
      d: "raw ! (js ! j) = PDict d"
      and t: "strip_value (dict_get d ''title'' (PStr (''Search Result '' @ str_int (int j + 1))))
                = Inr title"
      and rec: "recs ! j = source_metadata (int j + 1) title url
                (truncate_content mx (validate_and_clean_content (PStr c)))"
      by blast
    from rec have ti: "map_of (recs ! j) ''title'' = Some title"
      by (simp only: source_metadata_fields)
    have n: "str_int (int j + 1) = str_nat (Suc j)"
      by (simp add: str_int_def nat_add_distrib)
    have "case map_of d ''title'' of
            None \<Rightarrow> map_of (recs ! j) ''title'' = Some (''Search Result '' @ str_nat (Suc j))
                     \<and> dict_get (recs ! j) ''title'' [] \<noteq> []
          | Some v \<Rightarrow> \<exists>t. v = PStr t \<and> map_of (recs ! j) ''title'' = Some (py_strip t)"
    proof (cases "map_of d ''title''")
      case None
      with t n have "title = py_strip (''Search Result '' @ str_nat (Suc j))"
        by (simp add: dict_get_def)
      moreover note py_strip_placeholder[of "Suc j"]
      ultimately show ?thesis using None ti by (simp add: dict_get_def)
    next
      case (Some v)
      with t have "strip_value v = Inr title" by (simp add: dict_get_def)
      then obtain s where "v = PStr s" "title = py_strip s" by (cases v) auto
      with Some ti show ?thesis by simp
    qed
    with d show ?thesis by blast
  qed
  from raw len srt acc title rej show ?thesis
    by (intro exI[of _ raw] exI[of _ js]) simp
qed

theorem title_supplied_or_placeholder_witness:
  "process_search_results_for_ai reject_json
     (PList [PDict [(''content'', PStr ''hello world'')]]) 1 5 3
   = Inr ([''=== Source 1 ===\<newline>Title: Search Result 1\<newline>URL: \<newline>Content: hello...\<newline>==================''],
          [[(''title'', ''Search Result 1''), (''url'', []), (''content'', ''hello...''),
            (''short_url'', ''[1]''), (''value'', []), (''label'', ''Search Result 1'')]])
   \<and> map_of ([[(''title'', ''Search Result 1''), (''url'', []), (''content'', ''hello...''),
            (''short_url'', ''[1]''), (''value'', []), (''label'', ''Search Result 1'')]] ! 0) ''title''
       = Some (''Search Result '' @ str_nat (Suc 0))"
proof -
  let ?R = "[[(''title'', ''Search Result 1''), (''url'', []), (''content'', ''hello...''),
            (''short_url'', ''[1]''), (''value'', []), (''label'', ''Search Result 1'')]]"
  from title_supplied_or_placeholder[OF small_run] obtain raw js where
    raw: "py_iter (extract_tavily_results reject_json
            (PList [PDict [(''content'', PStr ''hello world'')]])) = Inr raw"
    and len: "length js = length ?R"
    and at: "\<forall>j < length ?R. js ! j < length raw
            \<and> (\<exists>d. raw ! (js ! j) = PDict d
                \<and> (case map_of d ''title'' of
                      None \<Rightarrow>
                        map_of (?R ! j) ''title'' = Some (''Search Result '' @ str_nat (Suc j))
                        \<and> dict_get (?R ! j) ''title'' [] \<noteq> []
                    | Some v \<Rightarrow>
                        \<exists>t. v = PStr t \<and> map_of (?R ! j) ''title'' = Some (py_strip t)))"
    by blast
  from raw have r: "raw = [PDict [(''content'', PStr ''hello world'')]]" by simp
  from at have "js ! 0 < length raw" by simp
  with r have j0: "js ! 0 = 0" by simp
  from at obtain d where "raw ! (js ! 0) = PDict d"
    and c: "case map_of d ''title'' of
              None \<Rightarrow> map_of (?R ! 0) ''title'' = Some (''Search Result '' @ str_nat (Suc 0))
                       \<and> dict_get (?R ! 0) ''title'' [] \<noteq> []
            | Some v \<Rightarrow> \<exists>t. v = PStr t \<and> map_of (?R ! 0) ''title'' = Some (py_strip t)"
    by auto
  with r j0 have "d = [(''content'', PStr ''hello world'')]" by simp
  with c have "map_of (?R ! 0) ''title'' = Some (''Search Result '' @ str_nat (Suc 0))"
    by simp
  with small_run show ?thesis by blast
qed

text \<open>
  Claim C10. In every record returned, \<open>value\<close> is the \<open>url\<close>, \<open>label\<close> is the
  \<open>title\<close>, and \<open>short_url\<close> is the citation marker of the record's rank; the url
  that finalization prints for the record, looked up under \<open>url\<close> with \<open>value\<close> as
  the fallback, is that same \<open>url\<close>.
\<close>

theorem metadata_aliases:
  assumes "process_search_results_for_ai loads resp mr mx mn = Inr (fs, recs)"
    and "j < length recs"
  shows "map_of (recs ! j) ''value'' = map_of (recs ! j) ''url''
     \<and> map_of (recs ! j) ''label'' = map_of (recs ! j) ''title''
     \<and> map_of (recs ! j) ''short_url'' = Some (source_id (int j + 1))
     \<and> map_of (recs ! j) ''url'' = Some (reference_url (recs ! j))
     \<and> map_of (recs ! j) ''value'' = Some (reference_url (recs ! j))"
proof -
  from record_at[OF assms] obtain title url c where
    rec: "recs ! j = source_metadata (int j + 1) title url
              (truncate_content mx (validate_and_clean_content (PStr c)))"
    by blast
  have "reference_url (recs ! j) = url"
    by (simp only: rec reference_url_def dict_get_def source_metadata_fields option.case)
  then show ?thesis by (simp only: rec source_metadata_fields)
qed

theorem metadata_aliases_witness:
  "map_of ([[(''title'', ''Search Result 1''), (''url'', []), (''content'', ''hello...''),
            (''short_url'', ''[1]''), (''value'', []), (''label'', ''Search Result 1'')]] ! 0) ''value''
   = map_of ([[(''title'', ''Search Result 1''), (''url'', []), (''content'', ''hello...''),
            (''short_url'', ''[1]''), (''value'', []), (''label'', ''Search Result 1'')]] ! 0) ''url''
   \<and> map_of ([[(''title'', ''Search Result 1''), (''url'', []), (''content'', ''hello...''),
            (''short_url'', ''[1]''), (''value'', []), (''label'', ''Search Result 1'')]] ! 0) ''label''
   = map_of ([[(''title'', ''Search Result 1''), (''url'', []), (''content'', ''hello...''),
            (''short_url'', ''[1]''), (''value'', []), (''label'', ''Search Result 1'')]] ! 0) ''title''
   \<and> map_of ([[(''title'', ''Search Result 1''), (''url'', []), (''content'', ''hello...''),
            (''short_url'', ''[1]''), (''value'', []), (''label'', ''Search Result 1'')]] ! 0) ''short_url''
   = Some (source_id (int 0 + 1))
   \<and> map_of ([[(''title'', ''Search Result 1''), (''url'', []), (''content'', ''hello...''),
            (''short_url'', ''[1]''), (''value'', []), (''label'', ''Search Result 1'')]] ! 0) ''url''
   = Some (reference_url ([[(''title'', ''Search Result 1''), (''url'', []), (''content'', ''hello...''),
            (''short_url'', ''[1]''), (''value'', []), (''label'', ''Search Result 1'')]] ! 0))
   \<and> map_of ([[(''title'', ''Search Result 1''), (''url'', []), (''content'', ''hello...''),
            (''short_url'', ''[1]''), (''value'', []), (''label'', ''Search Result 1'')]] ! 0) ''value''
   = Some (reference_url ([[(''title'', ''Search Result 1''), (''url'', []), (''content'', ''hello...''),
            (''short_url'', ''[1]''), (''value'', []), (''label'', ''Search Result 1'')]] ! 0))"
  by (rule metadata_aliases[OF small_run]) simp

section \<open>Properties of finalization\<close>

lemma finalize_loop_unmarked:
  assumes "\<forall>s \<in> set ss. \<exists>m. map_of s ''short_url'' = Some m \<and> \<not> is_substr m content"
  shows "finalize_loop ss content unique cm = Inr (content, unique, cm)"
  using assms
proof (induction ss)
  case Nil
  then show ?case by simp
next
  case (Cons s ss)
  from Cons.prems obtain m where "map_of s ''short_url'' = Some m" "\<not> is_substr m content"
    by auto
  then have "finalize_source s content unique cm = Inr (content, unique, cm)"
    by (simp add: finalize_source_def)
  moreover from Cons have "finalize_loop ss content unique cm = Inr (content, unique, cm)"
    by simp
  ultimately show ?case by simp
qed

text \<open>
  Claim C8 fails on the code. Two searches of two sources each leave the markers
  \<open>[1]\<close>, \<open>[2]\<close>, \<open>[1]\<close>, \<open>[2]\<close> in the accumulated list, and the answer cites
  \<open>[2]\<close> only. The loop tests each marker against the text it has rewritten so far:
  the second source takes number 1 and turns \<open>[2]\<close> into \<open>[1]\<close>, so the third source,
  whose marker never appeared in the answer, is accepted as number 2, and the fourth as
  number 3. The text ends up citing \<open>[3]\<close>, and three references are listed.
\<close>

theorem finalize_answer_accepts_uncited:
  "finalize_answer ''Only A2 is cited here [2].''
     [[(''title'', ''A1''), (''url'', ''http://a.com/1''), (''content'', ''content a1''),
       (''short_url'', ''[1]''), (''value'', ''http://a.com/1''), (''label'', ''A1'')],
      [(''title'', ''A2''), (''url'', ''http://a.com/2''), (''content'', ''content a2''),
       (''short_url'', ''[2]''), (''value'', ''http://a.com/2''), (''label'', ''A2'')],
      [(''title'', ''B1''), (''url'', ''http://b.com/1''), (''content'', ''content b1''),
       (''short_url'', ''[1]''), (''value'', ''http://b.com/1''), (''label'', ''B1'')],
      [(''title'', ''B2''), (''url'', ''http://b.com/2''), (''content'', ''content b2''),
       (''short_url'', ''[2]''), (''value'', ''http://b.com/2''), (''label'', ''B2'')]]
   = Inr (''Only A2 is cited here [3].\<newline>\<newline>## References\<newline>\<newline>1. [A2](http://a.com/2)\<newline>2. [B1](http://b.com/1)\<newline>3. [B2](http://b.com/2)\<newline>'',
          [[(''title'', ''A2''), (''url'', ''http://a.com/2''), (''content'', ''content a2''),
            (''short_url'', ''[2]''), (''value'', ''http://a.com/2''), (''label'', ''A2'')],
           [(''title'', ''B1''), (''url'', ''http://b.com/1''), (''content'', ''content b1''),
            (''short_url'', ''[1]''), (''value'', ''http://b.com/1''), (''label'', ''B1'')],
           [(''title'', ''B2''), (''url'', ''http://b.com/2''), (''content'', ''content b2''),
            (''short_url'', ''[2]''), (''value'', ''http://b.com/2''), (''label'', ''B2'')]])"
  by code_simp

text \<open>
  Claim C9. If every accumulated source has a marker and none of the markers appears in the
  answer, finalization returns the answer as it is, with no references section, and an
  empty list of accepted sources.
\<close>

theorem finalize_answer_no_marker:
  assumes "\<forall>s \<in> set sources. \<exists>m. map_of s ''short_url'' = Some m \<and> \<not> is_substr m answer"
  shows "finalize_answer answer sources = Inr (answer, [])"
  using finalize_loop_unmarked[OF assms, of "[]" "[]"] by (simp add: finalize_answer_def)

theorem finalize_answer_no_marker_witness:
  "finalize_answer ''No citation here.''
     [[(''title'', ''Report''), (''url'', ''http://r.com''), (''short_url'', ''[1]'')],
      [(''title'', ''Other''), (''url'', ''http://o.org''), (''short_url'', ''[2]'')]]
   = Inr (''No citation here.'', [])"
proof -
  have "\<forall>s \<in> set [[(''title'', ''Report''), (''url'', ''http://r.com''), (''short_url'', ''[1]'')],
      [(''title'', ''Other''), (''url'', ''http://o.org''), (''short_url'', ''[2]'')]].
      \<exists>m. map_of s ''short_url'' = Some m \<and> \<not> is_substr m ''No citation here.''"
    by simp
  from finalize_answer_no_marker[OF this] show ?thesis .
qed

section \<open>In-flight citation normalization on a short domain\<close>

text \<open>
  Claim C7 fails on the code: the url of the source parses into the domain \<open>x.com\<close>, of
  five characters, and the bare domain in the text is replaced by the marker all the same,
  by the unguarded list of url patterns that follows the guarded replacement.
\<close>

theorem short_domain_replaced:
  "process_citations_in_response ''See x.com for details''
     [[(''title'', ''A''), (''url'', ''http://x.com/a''), (''content'', ''hello world''),
       (''short_url'', ''[1]''), (''value'', ''http://x.com/a''), (''label'', ''A'')]]
   = ''See [1] for details''"
  by code_simp

section \<open>Lemmas on the content sanitizer\<close>

subsection \<open>Characters\<close>





subsection \<open>Keyword occurrences\<close>

lemma ci_prefix_Nil [simp]: "ci_prefix k [] \<longleftrightarrow> k = []"
  by (cases k) simp_all

lemma ci_prefix_append: "ci_prefix k u \<Longrightarrow> ci_prefix k (u @ v)"
  by (induction k u rule: ci_prefix.induct) simp_all


lemma ci_substr_appendI1: "ci_substr k u \<Longrightarrow> ci_substr k (u @ v)"
proof (induction u)
  case Nil
  then show ?case by (cases v) simp_all
next
  case (Cons c u)
  then show ?case using ci_prefix_append[of k "c # u" v] by auto
qed



lemma ci_substr_take: "ci_substr k (take n s) \<Longrightarrow> ci_substr k s"
  using ci_substr_appendI1[of k "take n s" "drop n s"] by simp



subsection \<open>Matching at one position\<close>






subsection \<open>One substitution pass\<close>








subsection \<open>Whitespace\<close>





subsection \<open>Searching\<close>



subsection \<open>The patterns of the sanitizer\<close>






subsection \<open>Whitespace-normal text\<close>











subsection \<open>Word boundaries\<close>















subsection \<open>What a pass can expose\<close>








subsection \<open>Stripping and searching\<close>





section \<open>Properties of the content sanitizer\<close>










end
